theory Spec2Isabelle
  imports Main "HOL-Library.Word"
begin

section \<open>JavaScript strings\<close>

text \<open>
  A JavaScript string is a sequence of UTF-16 code units, and \<open>length\<close> counts code
  units. Channel ids, folder names, task ids, timestamps and message texts are all
  JavaScript strings; \<open>js\<close> writes an ASCII literal.
\<close>

type_synonym jsstring = "16 word list"

definition js :: "string \<Rightarrow> jsstring" where
  "js s = map of_char s"

section \<open>The per-channel queue (group-queue.ts)\<close>

text \<open>
  \<open>QueuedTask\<close>: the closure \<open>fn\<close> is opaque to the queue (it is only awaited), so the
  record keeps the two data fields.
\<close>

record QueuedTask =
  id_t :: jsstring
  channelId_t :: jsstring

record GroupState =
  active :: bool
  pendingMessages :: bool
  pendingTasks :: "QueuedTask list"
  process :: "nat option"
  containerName :: "jsstring option"
  retryCount :: nat

text \<open>
  An \<open>async\<close> method runs synchronously up to its first \<open>await\<close>. \<open>runForGroup\<close> and
  \<open>runTask\<close> therefore fall into a start part (up to the awaited call) and a finish
  part (from the result of the awaited call through \<open>finally\<close>). Between the two the
  activation is suspended: \<open>running\<close> lists the suspended activations, one per started
  and not yet finished job. \<open>timers\<close> lists the callbacks registered with \<open>setTimeout\<close>
  by \<open>scheduleRetry\<close> that have not fired yet, with their delay in milliseconds.
\<close>

datatype job = MessagesJob jsstring | TaskJob jsstring QueuedTask

fun job_channel :: "job \<Rightarrow> jsstring" where
  "job_channel (MessagesJob c) = c"
| "job_channel (TaskJob c t) = c"

record GroupQueue =
  groups :: "jsstring \<rightharpoonup> GroupState"
  activeCount :: int
  waitingGroups :: "jsstring list"
  shuttingDown :: bool
  running :: "job list"
  timers :: "(jsstring \<times> nat) list"

definition MAX_RETRIES :: nat where
  "MAX_RETRIES = 5"

definition BASE_RETRY_MS :: nat where
  "BASE_RETRY_MS = 5000"

definition newGroupState :: GroupState where
  "newGroupState = \<lparr>active = False, pendingMessages = False, pendingTasks = [],
     process = None, containerName = None, retryCount = 0\<rparr>"

definition emptyQueue :: GroupQueue where
  "emptyQueue = \<lparr>groups = Map.empty, activeCount = 0, waitingGroups = [],
     shuttingDown = False, running = [], timers = []\<rparr>"

text \<open>\<open>getGroup\<close> creates the channel's state on first use.\<close>

definition getGroup :: "GroupQueue \<Rightarrow> jsstring \<Rightarrow> GroupState \<times> GroupQueue" where
  "getGroup q c =
     (case groups q c of
        Some s \<Rightarrow> (s, q)
      | None \<Rightarrow> (newGroupState, q\<lparr>groups := (groups q)(c \<mapsto> newGroupState)\<rparr>))"

text \<open>A write through the \<open>state\<close> reference that \<open>getGroup\<close> returned.\<close>

definition setGroup :: "GroupQueue \<Rightarrow> jsstring \<Rightarrow> GroupState \<Rightarrow> GroupQueue" where
  "setGroup q c s = q\<lparr>groups := (groups q)(c \<mapsto> s)\<rparr>"

definition registerProcess :: "GroupQueue \<Rightarrow> jsstring \<Rightarrow> nat \<Rightarrow> jsstring \<Rightarrow> GroupQueue" where
  "registerProcess q c proc name =
     (let (state, q1) = getGroup q c
      in setGroup q1 c (state\<lparr>process := Some proc, containerName := Some name\<rparr>))"

text \<open>\<open>runForGroup\<close> up to \<open>await this.processMessagesFn(channelId)\<close>.\<close>

definition runForGroup_start :: "GroupQueue \<Rightarrow> jsstring \<Rightarrow> GroupQueue" where
  "runForGroup_start q c =
     (let (state, q1) = getGroup q c;
          q2 = setGroup q1 c (state\<lparr>active := True, pendingMessages := False\<rparr>)
      in q2\<lparr>activeCount := activeCount q2 + 1, running := running q2 @ [MessagesJob c]\<rparr>)"

text \<open>\<open>runTask\<close> up to \<open>await task.fn()\<close>.\<close>

definition runTask_start :: "GroupQueue \<Rightarrow> jsstring \<Rightarrow> QueuedTask \<Rightarrow> GroupQueue" where
  "runTask_start q c task =
     (let (state, q1) = getGroup q c;
          q2 = setGroup q1 c (state\<lparr>active := True\<rparr>)
      in q2\<lparr>activeCount := activeCount q2 + 1, running := running q2 @ [TaskJob c task]\<rparr>)"

definition scheduleRetry :: "GroupQueue \<Rightarrow> jsstring \<Rightarrow> GroupQueue" where
  "scheduleRetry q c =
     (let (state, q1) = getGroup q c;
          r = retryCount state + 1
      in if r > MAX_RETRIES then setGroup q1 c (state\<lparr>retryCount := 0\<rparr>)
         else (setGroup q1 c (state\<lparr>retryCount := r\<rparr>))
                \<lparr>timers := timers q1 @ [(c, BASE_RETRY_MS * 2 ^ (r - 1))]\<rparr>)"

text \<open>
  \<open>MAX_CONCURRENT_CONTAINERS\<close> comes from config.ts; it is the parameter \<open>N\<close> of every
  operation that reads it.
\<close>

function drainWaiting :: "nat \<Rightarrow> GroupQueue \<Rightarrow> GroupQueue" where
  "drainWaiting N q =
     (if waitingGroups q \<noteq> [] \<and> activeCount q < int N then
        (let nextChannelId = hd (waitingGroups q);
             q0 = q\<lparr>waitingGroups := tl (waitingGroups q)\<rparr>;
             (state, q1) = getGroup q0 nextChannelId
         in if pendingTasks state \<noteq> [] then
              drainWaiting N
                (runTask_start
                   (setGroup q1 nextChannelId (state\<lparr>pendingTasks := tl (pendingTasks state)\<rparr>))
                   nextChannelId (hd (pendingTasks state)))
            else if pendingMessages state then
              drainWaiting N (runForGroup_start q1 nextChannelId)
            else drainWaiting N q1)
      else q)"
  by pat_completeness auto


lemma waitingGroups_getGroup: "waitingGroups (snd (getGroup q c)) = waitingGroups q"
  by (simp add: getGroup_def split: option.splits)

lemma waitingGroups_setGroup: "waitingGroups (setGroup q c s) = waitingGroups q"
  by (simp add: setGroup_def)

lemma waitingGroups_runTask_start: "waitingGroups (runTask_start q c t) = waitingGroups q"
  by (simp add: runTask_start_def Let_def split_beta waitingGroups_setGroup waitingGroups_getGroup)

lemma waitingGroups_runForGroup_start: "waitingGroups (runForGroup_start q c) = waitingGroups q"
  by (simp add: runForGroup_start_def Let_def split_beta waitingGroups_setGroup
      waitingGroups_getGroup)

termination drainWaiting
proof (relation "measure (\<lambda>(N, q). length (waitingGroups q))", goal_cases)
  case 1
  show ?case by simp
next
  case (2 N q nextChannelId q0 x state q1)
  then have "q1 = snd (getGroup q0 nextChannelId)" by (metis snd_conv)
  with 2 show ?case
    by (simp add: waitingGroups_runTask_start waitingGroups_setGroup waitingGroups_getGroup)
next
  case (3 N q nextChannelId q0 x state q1)
  then have "q1 = snd (getGroup q0 nextChannelId)" by (metis snd_conv)
  with 3 show ?case
    by (simp add: waitingGroups_runForGroup_start waitingGroups_getGroup)
next
  case (4 N q nextChannelId q0 x state q1)
  then have "q1 = snd (getGroup q0 nextChannelId)" by (metis snd_conv)
  with 4 show ?case
    by (simp add: waitingGroups_getGroup)
qed

declare drainWaiting.simps [simp del]

definition drainGroup :: "nat \<Rightarrow> GroupQueue \<Rightarrow> jsstring \<Rightarrow> GroupQueue" where
  "drainGroup N q c =
     (if shuttingDown q then q
      else
        (let (state, q1) = getGroup q c
         in if pendingTasks state \<noteq> [] then
              runTask_start (setGroup q1 c (state\<lparr>pendingTasks := tl (pendingTasks state)\<rparr>))
                c (hd (pendingTasks state))
            else if pendingMessages state then runForGroup_start q1 c
            else drainWaiting N q1))"

text \<open>
  How the awaited \<open>processMessagesFn\<close> ended: it resolved to \<open>true\<close>, resolved to
  \<open>false\<close>, or rejected (the \<open>catch\<close> branch).
\<close>

datatype outcome = Succeeded | Failed | Threw

text \<open>The \<open>finally\<close> block shared by \<open>runForGroup\<close> and \<open>runTask\<close>.\<close>

definition finally_block :: "nat \<Rightarrow> GroupQueue \<Rightarrow> jsstring \<Rightarrow> job \<Rightarrow> GroupQueue" where
  "finally_block N q c j =
     (let (state, q1) = getGroup q c;
          q2 = setGroup q1 c (state\<lparr>active := False, process := None, containerName := None\<rparr>);
          q3 = q2\<lparr>activeCount := activeCount q2 - 1, running := remove1 j (running q2)\<rparr>
      in drainGroup N q3 c)"

text \<open>\<open>runForGroup\<close> from the result of the awaited processor to its end.\<close>

definition runForGroup_finish :: "nat \<Rightarrow> GroupQueue \<Rightarrow> jsstring \<Rightarrow> outcome \<Rightarrow> GroupQueue" where
  "runForGroup_finish N q c r =
     (let q1 = (case r of
                  Succeeded \<Rightarrow> (let (state, q0) = getGroup q c
                                in setGroup q0 c (state\<lparr>retryCount := 0\<rparr>))
                | Failed \<Rightarrow> scheduleRetry q c
                | Threw \<Rightarrow> scheduleRetry q c)
      in finally_block N q1 c (MessagesJob c))"

text \<open>\<open>runTask\<close> from the end of the awaited \<open>task.fn()\<close>, resolved or rejected.\<close>

definition runTask_finish :: "nat \<Rightarrow> GroupQueue \<Rightarrow> jsstring \<Rightarrow> QueuedTask \<Rightarrow> GroupQueue" where
  "runTask_finish N q c task = finally_block N q c (TaskJob c task)"

definition enqueueMessageCheck :: "nat \<Rightarrow> GroupQueue \<Rightarrow> jsstring \<Rightarrow> GroupQueue" where
  "enqueueMessageCheck N q c =
     (if shuttingDown q then q
      else
        (let (state, q1) = getGroup q c
         in if active state then setGroup q1 c (state\<lparr>pendingMessages := True\<rparr>)
            else if activeCount q1 \<ge> int N then
              (let q2 = setGroup q1 c (state\<lparr>pendingMessages := True\<rparr>)
               in if c \<notin> set (waitingGroups q2)
                  then q2\<lparr>waitingGroups := waitingGroups q2 @ [c]\<rparr> else q2)
            else runForGroup_start q1 c))"

definition enqueueTask :: "nat \<Rightarrow> GroupQueue \<Rightarrow> jsstring \<Rightarrow> jsstring \<Rightarrow> GroupQueue" where
  "enqueueTask N q c taskId =
     (if shuttingDown q then q
      else
        (let (state, q1) = getGroup q c;
             task = \<lparr>id_t = taskId, channelId_t = c\<rparr>
         in if taskId \<in> set (map id_t (pendingTasks state)) then q1
            else if active state then
              setGroup q1 c (state\<lparr>pendingTasks := pendingTasks state @ [task]\<rparr>)
            else if activeCount q1 \<ge> int N then
              (let q2 = setGroup q1 c (state\<lparr>pendingTasks := pendingTasks state @ [task]\<rparr>)
               in if c \<notin> set (waitingGroups q2)
                  then q2\<lparr>waitingGroups := waitingGroups q2 @ [c]\<rparr> else q2)
            else runTask_start q1 c task))"

text \<open>
  \<open>shutdown\<close> sets the flag; the rest of the method signals the registered
  processes, whose jobs then finish as any other job does.
\<close>

definition shutdown :: "GroupQueue \<Rightarrow> GroupQueue" where
  "shutdown q = q\<lparr>shuttingDown := True\<rparr>"

text \<open>The callback that \<open>scheduleRetry\<close> passed to \<open>setTimeout\<close>, for the timer at index \<open>i\<close>.\<close>

definition timerFires :: "nat \<Rightarrow> GroupQueue \<Rightarrow> nat \<Rightarrow> GroupQueue" where
  "timerFires N q i =
     (if i < length (timers q) then
        (let c = fst (timers q ! i);
             q1 = q\<lparr>timers := take i (timers q) @ drop (Suc i) (timers q)\<rparr>
         in if \<not> shuttingDown q1 then enqueueMessageCheck N q1 c else q1)
      else q)"

text \<open>
  Everything that can happen to a queue: a call of a public method, a timer firing, or
  the promise awaited by a suspended job settling. A job that is not suspended cannot
  finish, so such an event leaves the queue as it is.
\<close>

datatype event =
    EnqueueMessageCheck jsstring
  | EnqueueTask jsstring jsstring
  | RegisterProcess jsstring nat jsstring
  | MessagesSettled jsstring outcome
  | TaskSettled jsstring QueuedTask
  | TimerFires nat
  | Shutdown

fun step :: "nat \<Rightarrow> GroupQueue \<Rightarrow> event \<Rightarrow> GroupQueue" where
  "step N q (EnqueueMessageCheck c) = enqueueMessageCheck N q c"
| "step N q (EnqueueTask c taskId) = enqueueTask N q c taskId"
| "step N q (RegisterProcess c proc name) = registerProcess q c proc name"
| "step N q (MessagesSettled c r) =
     (if MessagesJob c \<in> set (running q) then runForGroup_finish N q c r else q)"
| "step N q (TaskSettled c task) =
     (if TaskJob c task \<in> set (running q) then runTask_finish N q c task else q)"
| "step N q (TimerFires i) = timerFires N q i"
| "step N q Shutdown = shutdown q"

definition run :: "nat \<Rightarrow> event list \<Rightarrow> GroupQueue" where
  "run N evs = foldl (step N) emptyQueue evs"

definition is_active :: "GroupQueue \<Rightarrow> jsstring \<Rightarrow> bool" where
  "is_active q c = (case groups q c of None \<Rightarrow> False | Some s \<Rightarrow> active s)"

definition jobs_of :: "GroupQueue \<Rightarrow> jsstring \<Rightarrow> job list" where
  "jobs_of q c = filter (\<lambda>j. job_channel j = c) (running q)"

subsection \<open>The queue invariant\<close>


declare waitingGroups_getGroup [simp] waitingGroups_setGroup [simp]
  waitingGroups_runTask_start [simp] waitingGroups_runForGroup_start [simp]

lemma image_remove1_distinct:
  "distinct (map f xs) \<Longrightarrow> x \<in> set xs \<Longrightarrow> f ` set (remove1 x xs) = f ` set xs - {f x}"
  by (induction xs) auto

lemma length_filter_distinct_map:
  "distinct (map f xs) \<Longrightarrow> length (filter (\<lambda>j. f j = c) xs) \<le> 1"
proof (induction xs)
  case Nil
  then show ?case by simp
next
  case (Cons a xs)
  show ?case
  proof (cases "f a = c")
    case True
    then have "c \<notin> f ` set xs" using Cons.prems by auto
    then have "filter (\<lambda>j. f j = c) xs = []" by (auto simp add: filter_empty_conv)
    with True show ?thesis by simp
  next
    case False
    with Cons show ?thesis by simp
  qed
qed

lemma distinct_map_remove1: "distinct (map f xs) \<Longrightarrow> distinct (map f (remove1 x xs))"
proof (induction xs)
  case Nil
  then show ?case by simp
next
  case (Cons a xs)
  have "set (remove1 x xs) \<subseteq> set xs" by (rule set_remove1_subset)
  with Cons show ?case by auto
qed

lemma getGroup_fields [simp]:
  "activeCount (snd (getGroup q c)) = activeCount q"
  "running (snd (getGroup q c)) = running q"
  "shuttingDown (snd (getGroup q c)) = shuttingDown q"
  "timers (snd (getGroup q c)) = timers q"
  by (simp_all add: getGroup_def split: option.splits)

lemma is_active_getGroup [simp]: "is_active (snd (getGroup q c)) c' = is_active q c'"
  by (simp add: getGroup_def is_active_def newGroupState_def split: option.splits)

lemma active_fst_getGroup [simp]: "active (fst (getGroup q c)) = is_active q c"
  by (simp add: getGroup_def is_active_def newGroupState_def split: option.splits)

lemma setGroup_fields [simp]:
  "activeCount (setGroup q c s) = activeCount q"
  "running (setGroup q c s) = running q"
  "shuttingDown (setGroup q c s) = shuttingDown q"
  "timers (setGroup q c s) = timers q"
  by (simp_all add: setGroup_def)

lemma is_active_setGroup [simp]:
  "is_active (setGroup q c s) c' = (if c' = c then active s else is_active q c')"
  by (simp add: setGroup_def is_active_def)

lemma is_active_record_updates [simp]:
  "is_active (q\<lparr>waitingGroups := w\<rparr>) c = is_active q c"
  "is_active (q\<lparr>activeCount := a\<rparr>) c = is_active q c"
  "is_active (q\<lparr>running := r\<rparr>) c = is_active q c"
  "is_active (q\<lparr>timers := t\<rparr>) c = is_active q c"
  "is_active (q\<lparr>shuttingDown := b\<rparr>) c = is_active q c"
  by (simp_all add: is_active_def)

text \<open>
  The invariant that the proofs carry. \<open>inv_core\<close>: the suspended jobs have distinct
  channels, \<open>activeCount\<close> counts them and stays within the cap, the waiting list has no
  duplicate, a channel is \<open>active\<close> exactly when one of the suspended jobs is its own, and
  no waiting channel is active. \<open>inv_gate\<close>: unless the queue is shutting down, a channel
  waits only while the cap is reached.
\<close>

definition inv_core :: "nat \<Rightarrow> GroupQueue \<Rightarrow> bool" where
  "inv_core N q \<longleftrightarrow>
     distinct (map job_channel (running q)) \<and>
     activeCount q = int (length (running q)) \<and>
     length (running q) \<le> N \<and>
     distinct (waitingGroups q) \<and>
     (\<forall>c. is_active q c = (c \<in> job_channel ` set (running q))) \<and>
     set (waitingGroups q) \<inter> job_channel ` set (running q) = {}"

definition inv_gate :: "nat \<Rightarrow> GroupQueue \<Rightarrow> bool" where
  "inv_gate N q \<longleftrightarrow> shuttingDown q \<or> waitingGroups q = [] \<or> N \<le> length (running q)"

lemma inv_core_getGroup: "inv_core N (snd (getGroup q c)) = inv_core N q"
  by (simp add: inv_core_def waitingGroups_getGroup)

lemma inv_core_setGroup:
  "active s = is_active q c \<Longrightarrow> inv_core N (setGroup q c s) = inv_core N q"
  by (auto simp add: inv_core_def waitingGroups_setGroup)

lemma inv_core_runTask_start:
  assumes "inv_core N q" "\<not> is_active q c" "c \<notin> set (waitingGroups q)" "length (running q) < N"
  shows "inv_core N (runTask_start q c t)"
  using assms
  by (auto simp add: inv_core_def runTask_start_def Let_def split_beta waitingGroups_setGroup waitingGroups_getGroup)

lemma inv_core_runForGroup_start:
  assumes "inv_core N q" "\<not> is_active q c" "c \<notin> set (waitingGroups q)" "length (running q) < N"
  shows "inv_core N (runForGroup_start q c)"
  using assms
  by (auto simp add: inv_core_def runForGroup_start_def Let_def split_beta waitingGroups_setGroup waitingGroups_getGroup)


text \<open>One iteration of the \<open>while\<close> loop of \<open>drainWaiting\<close>.\<close>

definition drainWaiting_iteration :: "GroupQueue \<Rightarrow> GroupQueue" where
  "drainWaiting_iteration q =
     (let nextChannelId = hd (waitingGroups q);
          q0 = q\<lparr>waitingGroups := tl (waitingGroups q)\<rparr>;
          (state, q1) = getGroup q0 nextChannelId
      in if pendingTasks state \<noteq> [] then
           runTask_start
             (setGroup q1 nextChannelId (state\<lparr>pendingTasks := tl (pendingTasks state)\<rparr>))
             nextChannelId (hd (pendingTasks state))
         else if pendingMessages state then runForGroup_start q1 nextChannelId
         else q1)"

lemma drainWaiting_unfold:
  "drainWaiting N q =
     (if waitingGroups q \<noteq> [] \<and> activeCount q < int N
      then drainWaiting N (drainWaiting_iteration q) else q)"
  by (subst drainWaiting.simps) (simp add: drainWaiting_iteration_def Let_def split_beta)

lemma waitingGroups_iteration:
  "waitingGroups (drainWaiting_iteration q) = tl (waitingGroups q)"
  by (simp add: drainWaiting_iteration_def Let_def split_beta waitingGroups_runTask_start
      waitingGroups_runForGroup_start waitingGroups_setGroup waitingGroups_getGroup)

lemma shuttingDown_starts [simp]:
  "shuttingDown (runTask_start q c t) = shuttingDown q"
  "shuttingDown (runForGroup_start q c) = shuttingDown q"
  by (simp_all add: runTask_start_def runForGroup_start_def Let_def split_beta)

lemma running_starts [simp]:
  "running (runTask_start q c t) = running q @ [TaskJob c t]"
  "running (runForGroup_start q c) = running q @ [MessagesJob c]"
  by (simp_all add: runTask_start_def runForGroup_start_def Let_def split_beta)

lemma shuttingDown_iteration: "shuttingDown (drainWaiting_iteration q) = shuttingDown q"
  by (simp add: drainWaiting_iteration_def Let_def split_beta)

lemma inv_core_tl:
  assumes "inv_core N q"
  shows "inv_core N (q\<lparr>waitingGroups := tl (waitingGroups q)\<rparr>)"
proof -
  have "set (tl (waitingGroups q)) \<subseteq> set (waitingGroups q)"
    by (cases "waitingGroups q") auto
  with assms show ?thesis
    by (auto simp add: inv_core_def distinct_tl)
qed

lemma inv_core_iteration:
  assumes core: "inv_core N q" and ne: "waitingGroups q \<noteq> []" and lt: "activeCount q < int N"
  shows "inv_core N (drainWaiting_iteration q)"
proof -
  define c where "c = hd (waitingGroups q)"
  define q0 where "q0 = q\<lparr>waitingGroups := tl (waitingGroups q)\<rparr>"
  define state where "state = fst (getGroup q0 c)"
  define q1 where "q1 = snd (getGroup q0 c)"
  have cw: "c \<in> set (waitingGroups q)" using ne by (simp add: c_def)
  have inact: "\<not> is_active q c" using core cw by (auto simp add: inv_core_def)
  have notl: "c \<notin> set (tl (waitingGroups q))"
    using core ne by (cases "waitingGroups q") (auto simp add: inv_core_def c_def)
  have len: "length (running q) < N" using core lt by (simp add: inv_core_def)
  have core0: "inv_core N q0" unfolding q0_def by (rule inv_core_tl [OF core])
  have core1: "inv_core N q1" unfolding q1_def by (simp add: inv_core_getGroup core0)
  have inact1: "\<not> is_active q1 c" using inact by (simp add: q1_def q0_def)
  have w1: "c \<notin> set (waitingGroups q1)"
    using notl by (simp add: q1_def q0_def waitingGroups_getGroup)
  have len1: "length (running q1) < N" using len by (simp add: q1_def q0_def)
  have st: "active state = is_active q1 c" by (simp add: state_def q1_def)
  have A: "inv_core N (runTask_start (setGroup q1 c (state\<lparr>pendingTasks := tl (pendingTasks state)\<rparr>))
             c (hd (pendingTasks state)))"
    by (rule inv_core_runTask_start)
       (use core1 inact1 w1 len1 st in \<open>simp_all add: inv_core_setGroup waitingGroups_setGroup\<close>)
  have B: "inv_core N (runForGroup_start q1 c)"
    by (rule inv_core_runForGroup_start) (use core1 inact1 w1 len1 in simp_all)
  show ?thesis
    using A B core1
    by (simp add: drainWaiting_iteration_def Let_def split_beta c_def q0_def state_def q1_def)
qed

lemma drainWaiting_inv:
  "inv_core N q \<Longrightarrow>
     inv_core N (drainWaiting N q) \<and> shuttingDown (drainWaiting N q) = shuttingDown q \<and>
     (waitingGroups (drainWaiting N q) = [] \<or> N \<le> length (running (drainWaiting N q)))"
proof (induction "length (waitingGroups q)" arbitrary: q rule: less_induct)
  case less
  show ?case
  proof (cases "waitingGroups q \<noteq> [] \<and> activeCount q < int N")
    case True
    then have shorter: "length (waitingGroups (drainWaiting_iteration q)) < length (waitingGroups q)"
      by (simp add: waitingGroups_iteration)
    have core: "inv_core N (drainWaiting_iteration q)"
      using less.prems True by (simp add: inv_core_iteration)
    have eq: "drainWaiting N q = drainWaiting N (drainWaiting_iteration q)"
      using True by (subst drainWaiting_unfold) simp
    show ?thesis
      using less.hyps [OF shorter core] by (simp add: eq shuttingDown_iteration)
  next
    case False
    then have eq: "drainWaiting N q = q" by (subst drainWaiting_unfold) auto
    from False less.prems show ?thesis
      by (auto simp add: eq inv_core_def)
  qed
qed


lemma scheduleRetry_fields [simp]:
  "activeCount (scheduleRetry q c) = activeCount q"
  "running (scheduleRetry q c) = running q"
  "shuttingDown (scheduleRetry q c) = shuttingDown q"
  "waitingGroups (scheduleRetry q c) = waitingGroups q"
  "is_active (scheduleRetry q c) c' = is_active q c'"
  by (simp_all add: scheduleRetry_def Let_def split_beta waitingGroups_setGroup
      waitingGroups_getGroup)

lemma inv_core_cong:
  assumes "running q' = running q" "activeCount q' = activeCount q"
    "waitingGroups q' = waitingGroups q" "\<And>c. is_active q' c = is_active q c"
  shows "inv_core N q' = inv_core N q"
  using assms by (simp add: inv_core_def)

lemma inv_gate_cong:
  assumes "running q' = running q" "shuttingDown q' = shuttingDown q"
    "waitingGroups q' = waitingGroups q"
  shows "inv_gate N q' = inv_gate N q"
  using assms by (simp add: inv_gate_def)

lemma drainGroup_inv:
  assumes core: "inv_core N q" and inact: "\<not> is_active q c" and nw: "c \<notin> set (waitingGroups q)"
    and len: "length (running q) < N"
    and gate: "shuttingDown q \<or> waitingGroups q = [] \<or> N \<le> Suc (length (running q))"
  shows "inv_core N (drainGroup N q c) \<and> inv_gate N (drainGroup N q c)"
proof (cases "shuttingDown q")
  case True
  then show ?thesis using core by (simp add: drainGroup_def inv_gate_def)
next
  case False
  define state where "state = fst (getGroup q c)"
  define q1 where "q1 = snd (getGroup q c)"
  have core1: "inv_core N q1" by (simp add: q1_def inv_core_getGroup core)
  have inact1: "\<not> is_active q1 c" using inact by (simp add: q1_def)
  have w1: "waitingGroups q1 = waitingGroups q" by (simp add: q1_def waitingGroups_getGroup)
  have len1: "length (running q1) < N" using len by (simp add: q1_def)
  have st: "active state = is_active q1 c" by (simp add: state_def q1_def)
  have A: "inv_core N (runTask_start (setGroup q1 c (state\<lparr>pendingTasks := tl (pendingTasks state)\<rparr>))
             c (hd (pendingTasks state)))"
    by (rule inv_core_runTask_start)
       (use core1 inact1 w1 nw len1 st in \<open>simp_all add: inv_core_setGroup waitingGroups_setGroup\<close>)
  have A': "inv_gate N (runTask_start (setGroup q1 c (state\<lparr>pendingTasks := tl (pendingTasks state)\<rparr>))
             c (hd (pendingTasks state)))"
    using gate False
    by (simp add: inv_gate_def waitingGroups_runTask_start waitingGroups_setGroup w1 q1_def)
  have B: "inv_core N (runForGroup_start q1 c)"
    by (rule inv_core_runForGroup_start) (use core1 inact1 w1 nw len1 in simp_all)
  have B': "inv_gate N (runForGroup_start q1 c)"
    using gate False
    by (simp add: inv_gate_def waitingGroups_runForGroup_start w1 q1_def)
  have C: "inv_core N (drainWaiting N q1) \<and> inv_gate N (drainWaiting N q1)"
    using drainWaiting_inv [OF core1] by (simp add: inv_gate_def)
  show ?thesis
    using False A A' B B' C
    by (simp add: drainGroup_def Let_def split_beta state_def q1_def)
qed

lemma finally_block_inv:
  assumes core: "inv_core N q" and gate: "inv_gate N q" and j: "j \<in> set (running q)"
    and jc: "job_channel j = c"
  shows "inv_core N (finally_block N q c j) \<and> inv_gate N (finally_block N q c j)"
proof -
  define state where "state = fst (getGroup q c)"
  define q1 where "q1 = snd (getGroup q c)"
  define q2 where "q2 = setGroup q1 c (state\<lparr>active := False, process := None, containerName := None\<rparr>)"
  define q3 where "q3 = q2\<lparr>activeCount := activeCount q2 - 1, running := remove1 j (running q2)\<rparr>"
  have r3: "running q3 = remove1 j (running q)" by (simp add: q3_def q2_def q1_def)
  have w3: "waitingGroups q3 = waitingGroups q"
    by (simp add: q3_def q2_def q1_def waitingGroups_setGroup waitingGroups_getGroup)
  have a3: "activeCount q3 = activeCount q - 1" by (simp add: q3_def q2_def q1_def)
  have s3: "shuttingDown q3 = shuttingDown q" by (simp add: q3_def q2_def q1_def)
  have act3: "is_active q3 c' = (if c' = c then False else is_active q c')" for c'
    by (simp add: q3_def q2_def q1_def)
  have dist: "distinct (map job_channel (running q))" using core by (simp add: inv_core_def)
  have lenpos: "length (running q) > 0" using j by (cases "running q") auto
  have len3: "Suc (length (running q3)) = length (running q)"
    using j lenpos by (simp add: r3 length_remove1)
  have chans: "job_channel ` set (running q3) = job_channel ` set (running q) - {c}"
    using image_remove1_distinct [OF dist j] by (simp add: r3 jc)
  have cin: "c \<in> job_channel ` set (running q)" using j jc by auto
  have core3: "inv_core N q3"
    using core cin len3 unfolding inv_core_def chans w3 a3 act3
    by (auto simp add: r3 distinct_map_remove1)
  have nw: "c \<notin> set (waitingGroups q3)" using core cin by (auto simp add: inv_core_def w3)
  have lenN: "length (running q3) < N" using core len3 by (simp add: inv_core_def)
  have g3: "shuttingDown q3 \<or> waitingGroups q3 = [] \<or> N \<le> Suc (length (running q3))"
    using gate by (simp add: inv_gate_def s3 w3 len3)
  have "inv_core N (drainGroup N q3 c) \<and> inv_gate N (drainGroup N q3 c)"
    by (rule drainGroup_inv [OF core3 _ nw lenN g3]) (simp add: act3)
  then show ?thesis
    by (simp add: finally_block_def Let_def split_beta q3_def q2_def q1_def state_def)
qed


definition queue_inv :: "nat \<Rightarrow> GroupQueue \<Rightarrow> bool" where
  "queue_inv N q \<longleftrightarrow> inv_core N q \<and> inv_gate N q"

lemma queue_inv_emptyQueue: "queue_inv N emptyQueue"
  by (simp add: queue_inv_def inv_core_def inv_gate_def emptyQueue_def is_active_def)

lemma queue_inv_enqueueMessageCheck:
  assumes "queue_inv N q"
  shows "queue_inv N (enqueueMessageCheck N q c)"
proof (cases "shuttingDown q")
  case True
  with assms show ?thesis by (simp add: enqueueMessageCheck_def)
next
  case False
  define state where "state = fst (getGroup q c)"
  define q1 where "q1 = snd (getGroup q c)"
  have core: "inv_core N q" and gate: "inv_gate N q" using assms by (simp_all add: queue_inv_def)
  have core1: "inv_core N q1" by (simp add: q1_def inv_core_getGroup core)
  have gate1: "inv_gate N q1" using gate by (simp add: q1_def inv_gate_def)
  have st: "active state = is_active q1 c" by (simp add: state_def q1_def)
  let ?q2 = "setGroup q1 c (state\<lparr>pendingMessages := True\<rparr>)"
  have core2: "inv_core N ?q2" using core1 st by (simp add: inv_core_setGroup)
  have gate2: "inv_gate N ?q2" using gate1 by (simp add: inv_gate_def)
  have A: "queue_inv N ?q2" using core2 gate2 by (simp add: queue_inv_def)
  have B: "queue_inv N (?q2\<lparr>waitingGroups := waitingGroups ?q2 @ [c]\<rparr>)"
    if "\<not> active state" "activeCount q1 \<ge> int N" "c \<notin> set (waitingGroups ?q2)"
  proof -
    have "c \<notin> job_channel ` set (running q1)"
      using that(1) st core1 by (simp add: inv_core_def)
    with that core2 show ?thesis
      unfolding queue_inv_def inv_core_def inv_gate_def by auto
  qed
  have C: "queue_inv N (runForGroup_start q1 c)" if "\<not> active state" "\<not> activeCount q1 \<ge> int N"
  proof -
    have len: "length (running q1) < N" using that core1 by (simp add: inv_core_def)
    have w: "waitingGroups q1 = []" using gate1 False len by (simp add: inv_gate_def q1_def)
    have "inv_core N (runForGroup_start q1 c)"
      by (rule inv_core_runForGroup_start) (use core1 that st w len in simp_all)
    moreover have "inv_gate N (runForGroup_start q1 c)" by (simp add: inv_gate_def w)
    ultimately show ?thesis by (simp add: queue_inv_def)
  qed
  show ?thesis
    using False A B C
    by (simp add: enqueueMessageCheck_def Let_def split_beta state_def q1_def)
qed

lemma queue_inv_enqueueTask:
  assumes "queue_inv N q"
  shows "queue_inv N (enqueueTask N q c taskId)"
proof (cases "shuttingDown q")
  case True
  with assms show ?thesis by (simp add: enqueueTask_def)
next
  case False
  define state where "state = fst (getGroup q c)"
  define q1 where "q1 = snd (getGroup q c)"
  define task where "task = \<lparr>id_t = taskId, channelId_t = c\<rparr>"
  have core: "inv_core N q" and gate: "inv_gate N q" using assms by (simp_all add: queue_inv_def)
  have core1: "inv_core N q1" by (simp add: q1_def inv_core_getGroup core)
  have gate1: "inv_gate N q1" using gate by (simp add: q1_def inv_gate_def)
  have Q1: "queue_inv N q1" using core1 gate1 by (simp add: queue_inv_def)
  have st: "active state = is_active q1 c" by (simp add: state_def q1_def)
  let ?q2 = "setGroup q1 c (state\<lparr>pendingTasks := pendingTasks state @ [task]\<rparr>)"
  have core2: "inv_core N ?q2" using core1 st by (simp add: inv_core_setGroup)
  have gate2: "inv_gate N ?q2" using gate1 by (simp add: inv_gate_def)
  have A: "queue_inv N ?q2" using core2 gate2 by (simp add: queue_inv_def)
  have B: "queue_inv N (?q2\<lparr>waitingGroups := waitingGroups ?q2 @ [c]\<rparr>)"
    if "\<not> active state" "activeCount q1 \<ge> int N" "c \<notin> set (waitingGroups ?q2)"
  proof -
    have "c \<notin> job_channel ` set (running q1)"
      using that(1) st core1 by (simp add: inv_core_def)
    with that core2 show ?thesis
      unfolding queue_inv_def inv_core_def inv_gate_def by auto
  qed
  have C: "queue_inv N (runTask_start q1 c task)" if "\<not> active state" "\<not> activeCount q1 \<ge> int N"
  proof -
    have len: "length (running q1) < N" using that core1 by (simp add: inv_core_def)
    have w: "waitingGroups q1 = []" using gate1 False len by (simp add: inv_gate_def q1_def)
    have "inv_core N (runTask_start q1 c task)"
      by (rule inv_core_runTask_start) (use core1 that st w len in simp_all)
    moreover have "inv_gate N (runTask_start q1 c task)" by (simp add: inv_gate_def w)
    ultimately show ?thesis by (simp add: queue_inv_def)
  qed
  show ?thesis
    using False Q1 A B C
    by (simp add: enqueueTask_def Let_def split_beta state_def q1_def task_def)
qed

lemma queue_inv_registerProcess:
  assumes "queue_inv N q"
  shows "queue_inv N (registerProcess q c proc name)"
proof -
  have "inv_core N (registerProcess q c proc name) = inv_core N q"
    by (rule inv_core_cong) (simp_all add: registerProcess_def Let_def split_beta)
  moreover have "inv_gate N (registerProcess q c proc name) = inv_gate N q"
    by (rule inv_gate_cong) (simp_all add: registerProcess_def Let_def split_beta)
  ultimately show ?thesis using assms by (simp add: queue_inv_def)
qed

lemma queue_inv_runForGroup_finish:
  assumes "queue_inv N q" "MessagesJob c \<in> set (running q)"
  shows "queue_inv N (runForGroup_finish N q c r)"
proof -
  define q1 where "q1 = (case r of
                  Succeeded \<Rightarrow> (let (state, q0) = getGroup q c
                                in setGroup q0 c (state\<lparr>retryCount := 0\<rparr>))
                | Failed \<Rightarrow> scheduleRetry q c
                | Threw \<Rightarrow> scheduleRetry q c)"
  have f: "running q1 = running q" "activeCount q1 = activeCount q"
    "waitingGroups q1 = waitingGroups q" "shuttingDown q1 = shuttingDown q"
    "\<And>c'. is_active q1 c' = is_active q c'"
    by (cases r; simp add: q1_def Let_def split_beta)+
  have "inv_core N q1" "inv_gate N q1"
    using assms(1) inv_core_cong [of q1 q N] inv_gate_cong [of q1 q N] f
    by (simp_all add: queue_inv_def)
  then have "inv_core N (finally_block N q1 c (MessagesJob c)) \<and>
             inv_gate N (finally_block N q1 c (MessagesJob c))"
    by (rule finally_block_inv) (use assms(2) f in simp_all)
  then show ?thesis by (simp add: runForGroup_finish_def queue_inv_def q1_def)
qed

lemma queue_inv_runTask_finish:
  assumes "queue_inv N q" "TaskJob c task \<in> set (running q)"
  shows "queue_inv N (runTask_finish N q c task)"
  using finally_block_inv [of N q "TaskJob c task" c] assms
  by (simp add: runTask_finish_def queue_inv_def)

lemma queue_inv_shutdown: "queue_inv N q \<Longrightarrow> queue_inv N (shutdown q)"
  by (simp add: shutdown_def queue_inv_def inv_core_def inv_gate_def)

lemma queue_inv_timerFires:
  assumes "queue_inv N q"
  shows "queue_inv N (timerFires N q i)"
proof -
  have "queue_inv N (q\<lparr>timers := ts\<rparr>)" for ts
    using assms by (simp add: queue_inv_def inv_core_def inv_gate_def)
  then show ?thesis
    using assms by (simp add: timerFires_def Let_def queue_inv_enqueueMessageCheck)
qed

lemma queue_inv_step: "queue_inv N q \<Longrightarrow> queue_inv N (step N q ev)"
  by (cases ev)
     (simp_all add: queue_inv_enqueueMessageCheck queue_inv_enqueueTask queue_inv_registerProcess
        queue_inv_runForGroup_finish queue_inv_runTask_finish queue_inv_timerFires
        queue_inv_shutdown)

lemma queue_inv_foldl: "queue_inv N q \<Longrightarrow> queue_inv N (foldl (step N) q evs)"
  by (induction evs arbitrary: q) (simp_all add: queue_inv_step)

lemma queue_inv_run: "queue_inv N (run N evs)"
  by (simp add: run_def queue_inv_foldl queue_inv_emptyQueue)

text \<open>
  C1. From the empty queue, after any sequence of events (calls of
  \<open>enqueueMessageCheck\<close>, \<open>enqueueTask\<close>, \<open>registerProcess\<close> and \<open>shutdown\<close>, retry
  timers firing, and jobs finishing, which runs \<open>drainGroup\<close> and \<open>drainWaiting\<close>, which
  in turn start jobs with \<open>runForGroup\<close> and \<open>runTask\<close>): every channel has at most one
  job in flight, and is marked active exactly when it has one; \<open>activeCount\<close> is the
  number of jobs in flight and never exceeds \<open>MAX_CONCURRENT_CONTAINERS\<close>; and no channel
  occurs twice in \<open>waitingGroups\<close>.
\<close>

theorem queue_invariant:
  "length (jobs_of (run N evs) c) \<le> 1 \<and>
   is_active (run N evs) c = (jobs_of (run N evs) c \<noteq> []) \<and>
   activeCount (run N evs) = int (length (running (run N evs))) \<and>
   activeCount (run N evs) \<le> int N \<and>
   distinct (waitingGroups (run N evs))"
proof -
  have inv: "inv_core N (run N evs)" using queue_inv_run [of N evs] by (simp add: queue_inv_def)
  have d: "distinct (map job_channel (running (run N evs)))" using inv by (simp add: inv_core_def)
  have one: "length (jobs_of (run N evs) c) \<le> 1" unfolding jobs_of_def by (rule length_filter_distinct_map [OF d])
  have "(jobs_of (run N evs) c \<noteq> []) = (c \<in> job_channel ` set (running (run N evs)))"
    by (auto simp add: jobs_of_def filter_empty_conv)
  with inv one show ?thesis by (simp add: inv_core_def)
qed

text \<open>
  The cap scenario of the specification, with \<open>MAX_CONCURRENT_CONTAINERS = 2\<close>: \<open>C1\<close> and
  \<open>C2\<close> run, \<open>C3\<close> is enqueued and waits, then \<open>C1\<close> finishes.
\<close>

definition cap_scenario :: "event list" where
  "cap_scenario = [EnqueueMessageCheck (js ''C1''), EnqueueMessageCheck (js ''C2''),
     EnqueueMessageCheck (js ''C3''), MessagesSettled (js ''C1'') Succeeded]"

lemma cap_scenario_waits:
  "(let q = run 2 (butlast cap_scenario) in (activeCount q, waitingGroups q, running q)) =
     (2, [js ''C3''], [MessagesJob (js ''C1''), MessagesJob (js ''C2'')])"
  by code_simp

lemma cap_scenario_result:
  "(let q = run 2 cap_scenario in (activeCount q, waitingGroups q, running q)) =
     (2, [], [MessagesJob (js ''C2''), MessagesJob (js ''C3'')])"
  by code_simp

theorem queue_invariant_witness:
  "length (jobs_of (run 2 cap_scenario) (js ''C3'')) \<le> 1 \<and>
   is_active (run 2 cap_scenario) (js ''C3'') = (jobs_of (run 2 cap_scenario) (js ''C3'') \<noteq> []) \<and>
   activeCount (run 2 cap_scenario) = int (length (running (run 2 cap_scenario))) \<and>
   activeCount (run 2 cap_scenario) \<le> int 2 \<and>
   distinct (waitingGroups (run 2 cap_scenario))"
  by (rule queue_invariant)

end
